theory Spec2Isabelle
  imports Main "HOL-Library.Word"
begin

section \<open>The event queue (fsm\_fifo.cpp)\<close>

text \<open>
  The queue is the global \<open>Event_FIFO fifo\<close>: an array of events, a read index
  \<open>head\<close> and a write index \<open>tail\<close>. The header that declares \<open>Event_FIFO\<close>,
  \<open>FSM_Event\<close> and the macro \<open>FIFO_SIZE\<close> is not among the sources, so
  \<open>FIFO_SIZE\<close> is a parameter of every operation, events are the integers of the
  event enumeration, and the indices are C \<open>int\<close>s read as mathematical integers
  (\<open>tail + 1\<close> does not overflow while \<open>tail < FIFO_SIZE\<close>).

  An array access outside the array is undefined behaviour in C++. The model makes it a
  result of its own: an operation that would index \<open>buffer\<close> out of range returns
  \<open>None\<close>.
\<close>

type_synonym FSM_Event = int

record Event_FIFO =
  buffer :: "FSM_Event list"
  head :: int
  tail :: int

text \<open>
  \<open>Event_FIFO fifo;\<close> has static storage duration: it is zero-initialised, all
  \<open>FIFO_SIZE\<close> slots 0 and both indices 0.
\<close>

definition fifo_init :: "int \<Rightarrow> Event_FIFO" where
  "fifo_init FIFO_SIZE = \<lparr>buffer = replicate (nat FIFO_SIZE) 0, head = 0, tail = 0\<rparr>"

text \<open>
  The processor state the target build of \<open>write_event\<close> touches: the interrupt mask
  (\<open>__disable_irq\<close> sets PRIMASK, \<open>__enable_irq\<close> clears it) and the queue.
\<close>

record machine =
  primask :: bool
  fifo :: Event_FIFO

definition disable_irq :: "machine \<Rightarrow> machine" where
  "disable_irq m = m\<lparr>primask := True\<rparr>"

definition enable_irq :: "machine \<Rightarrow> machine" where
  "enable_irq m = m\<lparr>primask := False\<rparr>"

text \<open>\<open>write_event\<close> of src/fsm-gen/fsm\_fifo.cpp, the interrupt-guarded build.\<close>

definition write_event :: "int \<Rightarrow> FSM_Event \<Rightarrow> machine \<Rightarrow> machine option" where
  "write_event FIFO_SIZE event m =
     (let m1 = disable_irq m;
          next = tail (fifo m1) + 1
      in if next = head (fifo m1) \<or> (next = FIFO_SIZE \<and> head (fifo m1) = 0)
         then Some (enable_irq m1)
         else if 0 \<le> tail (fifo m1) \<and> tail (fifo m1) < int (length (buffer (fifo m1)))
         then Some (enable_irq (m1\<lparr>fifo := (fifo m1)
                \<lparr>buffer := (buffer (fifo m1))[nat (tail (fifo m1)) := event],
                 tail := (if tail (fifo m1) = FIFO_SIZE - 1 then 0 else next)\<rparr>\<rparr>))
         else None)"

text \<open>
  \<open>write_event\<close> of src/fsm-gen/tests/overlap/code/Src/fsm\_fifo.cpp, the host build: the
  same body with no interrupt masking, so it touches the queue only.
\<close>

definition write_event_host :: "int \<Rightarrow> FSM_Event \<Rightarrow> Event_FIFO \<Rightarrow> Event_FIFO option" where
  "write_event_host FIFO_SIZE event q =
     (let next = tail q + 1
      in if next = head q \<or> (next = FIFO_SIZE \<and> head q = 0)
         then Some q
         else if 0 \<le> tail q \<and> tail q < int (length (buffer q))
         then Some (q\<lparr>buffer := (buffer q)[nat (tail q) := event],
                     tail := (if tail q = FIFO_SIZE - 1 then 0 else next)\<rparr>)
         else None)"

text \<open>
  \<open>read_event\<close>, the same text in both files. The caller passes the address of an event
  variable; the model takes the variable's value before the call and returns the value it
  has after it, with the \<open>int\<close> result and the queue.
\<close>

definition read_event ::
  "int \<Rightarrow> Event_FIFO \<Rightarrow> FSM_Event \<Rightarrow> (int \<times> Event_FIFO \<times> FSM_Event) option" where
  "read_event FIFO_SIZE q event =
     (if head q = tail q then Some (0, q, event)
      else if 0 \<le> head q \<and> head q < int (length (buffer q))
      then Some (1, q\<lparr>head := (if head q = FIFO_SIZE - 1 then 0 else head q + 1)\<rparr>,
                 buffer q ! nat (head q))
      else None)"

subsection \<open>Running a sequence of queue operations\<close>

text \<open>
  A driver around the two operations. \<open>Target\<close> runs the interrupt-guarded
  \<open>write_event\<close>, \<open>Host\<close> the host one on the same queue. The harness keeps the
  consumer's event variable, the list of what each \<open>read_event\<close> returned (result and
  the variable's value after the call), and a ghost counter of live entries: one more for
  each \<open>write_event\<close> that moved \<open>tail\<close> (it stored its event), one less for each
  \<open>read_event\<close> that returned 1.
\<close>

datatype build = Target | Host

datatype fifo_op = Enqueue FSM_Event | Dequeue

record harness =
  mach :: machine
  event_var :: FSM_Event
  returned :: "(int \<times> FSM_Event) list"
  live :: int

definition harness_init :: "int \<Rightarrow> FSM_Event \<Rightarrow> harness" where
  "harness_init FIFO_SIZE ev0 =
     \<lparr>mach = \<lparr>primask = False, fifo = fifo_init FIFO_SIZE\<rparr>,
      event_var = ev0, returned = [], live = 0\<rparr>"

definition do_write :: "build \<Rightarrow> int \<Rightarrow> FSM_Event \<Rightarrow> machine \<Rightarrow> machine option" where
  "do_write b FIFO_SIZE e m =
     (case b of
        Target \<Rightarrow> write_event FIFO_SIZE e m
      | Host \<Rightarrow> map_option (\<lambda>q. m\<lparr>fifo := q\<rparr>) (write_event_host FIFO_SIZE e (fifo m)))"

fun step :: "build \<Rightarrow> int \<Rightarrow> fifo_op \<Rightarrow> harness \<Rightarrow> harness option" where
  "step b FIFO_SIZE (Enqueue e) h =
     (case do_write b FIFO_SIZE e (mach h) of
        None \<Rightarrow> None
      | Some m' \<Rightarrow>
          Some (h\<lparr>mach := m',
                  live := (if tail (fifo m') \<noteq> tail (fifo (mach h)) then live h + 1
                           else live h)\<rparr>))"
| "step b FIFO_SIZE Dequeue h =
     (case read_event FIFO_SIZE (fifo (mach h)) (event_var h) of
        None \<Rightarrow> None
      | Some (r, q', ev') \<Rightarrow>
          Some (h\<lparr>mach := (mach h)\<lparr>fifo := q'\<rparr>,
                  event_var := ev',
                  returned := returned h @ [(r, ev')],
                  live := (if r = 1 then live h - 1 else live h)\<rparr>))"

fun run :: "build \<Rightarrow> int \<Rightarrow> fifo_op list \<Rightarrow> harness \<Rightarrow> harness option" where
  "run b FIFO_SIZE [] h = Some h"
| "run b FIFO_SIZE (x # xs) h =
     (case step b FIFO_SIZE x h of None \<Rightarrow> None | Some h' \<Rightarrow> run b FIFO_SIZE xs h')"

text \<open>Advancing an index by one with wraparound, as both operations do.\<close>

definition advance :: "int \<Rightarrow> int \<Rightarrow> int" where
  "advance FIFO_SIZE i = (if i = FIFO_SIZE - 1 then 0 else i + 1)"

text \<open>The representation invariant of the queue.\<close>

definition fifo_ok :: "int \<Rightarrow> Event_FIFO \<Rightarrow> bool" where
  "fifo_ok FIFO_SIZE q \<longleftrightarrow>
     int (length (buffer q)) = FIFO_SIZE \<and>
     0 \<le> head q \<and> head q < FIFO_SIZE \<and> 0 \<le> tail q \<and> tail q < FIFO_SIZE"

text \<open>
  The events the queue holds, oldest first: the slots from \<open>head\<close> up to \<open>tail\<close>,
  around the end of the array when \<open>tail\<close> has wrapped.
\<close>

definition contents :: "Event_FIFO \<Rightarrow> FSM_Event list" where
  "contents q =
     (if head q \<le> tail q then drop (nat (head q)) (take (nat (tail q)) (buffer q))
      else drop (nat (head q)) (buffer q) @ take (nat (tail q)) (buffer q))"

text \<open>
  What the harness maintains: the queue is well formed and the ghost counter is the number
  of events the queue holds.
\<close>

definition harness_ok :: "int \<Rightarrow> harness \<Rightarrow> bool" where
  "harness_ok N h \<longleftrightarrow>
     fifo_ok N (fifo (mach h)) \<and> live h = int (length (contents (fifo (mach h))))"

text \<open>
  What a caller of the two operations can see of a harness: the queue, the consumer's event
  variable, what the reads returned and the live count. The interrupt mask is left out.
\<close>

definition observe :: "harness \<Rightarrow> Event_FIFO \<times> FSM_Event \<times> (int \<times> FSM_Event) list \<times> int" where
  "observe h = (fifo (mach h), event_var h, returned h, live h)"

section \<open>The timer service (user\_timers.cpp)\<close>

text \<open>
  The timer channels of \<open>Events.hpp\<close>, as the two \<open>switch\<close> statements list them.
  \<open>NUM_TIMERS\<close> is the count that closes the enumeration, not a channel.
\<close>

datatype Timer = TIMER_1 | TIMER_2 | TIMER_3 | NUM_TIMERS

text \<open>
  The fields of the HAL timer handle that this code reads or writes: the peripheral the
  handle drives (\<open>Instance\<close>, its base address) and \<open>Init.Period\<close>, a
  \<open>uint32_t\<close>.
\<close>

record TIM_HandleTypeDef =
  Instance :: "32 word"
  Init_Period :: "32 word"

text \<open>
  Modelled from the spec: the registers of one hardware timer, which the HAL driver (not
  among the sources) programs. \<open>ARR\<close> is the period in ticks, \<open>CNT\<close> the counter,
  \<open>UIF\<close> the pending elapsed-flag, \<open>UIE\<close> the elapse interrupt enable and
  \<open>CEN\<close> the countdown enable.
\<close>

record TIM_regs =
  ARR :: "32 word"
  CNT :: "32 word"
  UIF :: bool
  UIE :: bool
  CEN :: bool

text \<open>
  The state the timer service works on: the three global handles \<open>htim1\<close>,
  \<open>htim2\<close>, \<open>htim3\<close> (declared \<open>extern\<close>), the timer peripherals by
  base address, and the elapse interrupts the timers have raised so far, oldest first,
  each named by the base address of its timer. Section 4.2 of the spec: on elapse the
  service is called for the channel; every entry of \<open>elapsed\<close> is one such call.
\<close>

record timer_hw =
  htim1 :: TIM_HandleTypeDef
  htim2 :: TIM_HandleTypeDef
  htim3 :: TIM_HandleTypeDef
  TIM :: "32 word \<Rightarrow> TIM_regs"
  elapsed :: "32 word list"

datatype TIM_interrupt = TIM_IT_UPDATE

text \<open>
  Modelled from the spec: the elapse interrupt of the timer at an address, which the
  hardware raises and the HAL driver (not among the sources) serves. A pending elapsed-flag
  is an elapse not yet delivered: once the flag is pending and the timer's elapse interrupt
  is enabled, the interrupt is taken, which clears the flag and delivers the elapse
  (section 4.2, ``on elapse, the service enqueues the event identifier bound to that
  channel''; section 6, the hardware elapse callback).
\<close>

definition take_elapse_irq :: "32 word \<Rightarrow> timer_hw \<Rightarrow> timer_hw" where
  "take_elapse_irq a s =
     (if UIF (TIM s a) \<and> UIE (TIM s a)
      then s\<lparr>TIM := (TIM s)(a := (TIM s a)\<lparr>UIF := False\<rparr>), elapsed := elapsed s @ [a]\<rparr>
      else s)"

text \<open>
  Modelled from the spec: \<open>HAL_TIM_Base_Init\<close> of the HAL driver, which is not among the
  sources. It programs the hardware resource of the handle with the handle's period and
  puts its count back to zero (section 4.2, ``programs the hardware resource bound to
  channel'', and start on a running channel ``restarts the countdown'').
\<close>

definition HAL_TIM_Base_Init :: "TIM_HandleTypeDef \<Rightarrow> timer_hw \<Rightarrow> timer_hw" where
  "HAL_TIM_Base_Init h s =
     s\<lparr>TIM := (TIM s)(Instance h := (TIM s (Instance h))\<lparr>ARR := Init_Period h, CNT := 0\<rparr>)\<rparr>"

text \<open>
  Modelled from the spec: the HAL macro \<open>__HAL_TIM_CLEAR_IT\<close>, not among the sources.
  For \<open>TIM_IT_UPDATE\<close> it clears the pending elapsed-flag of the handle's timer
  (section 4.2, ``clearing any pending elapsed-flag'').
\<close>

definition HAL_TIM_CLEAR_IT :: "TIM_HandleTypeDef \<Rightarrow> TIM_interrupt \<Rightarrow> timer_hw \<Rightarrow> timer_hw" where
  "HAL_TIM_CLEAR_IT h it s =
     (case it of TIM_IT_UPDATE \<Rightarrow>
        s\<lparr>TIM := (TIM s)(Instance h := (TIM s (Instance h))\<lparr>UIF := False\<rparr>)\<rparr>)"

text \<open>
  Modelled from the spec: \<open>HAL_TIM_Base_Start_IT\<close> of the HAL driver, not among the
  sources. It starts the countdown of the handle's timer with its elapse interrupt enabled.
  An elapsed-flag that is still pending at that moment is delivered at once, as an elapse
  the new countdown has not produced: this is why a start clears the flag first.
\<close>

definition HAL_TIM_Base_Start_IT :: "TIM_HandleTypeDef \<Rightarrow> timer_hw \<Rightarrow> timer_hw" where
  "HAL_TIM_Base_Start_IT h s =
     take_elapse_irq (Instance h)
       (s\<lparr>TIM := (TIM s)(Instance h := (TIM s (Instance h))\<lparr>UIE := True, CEN := True\<rparr>)\<rparr>)"

text \<open>
  Modelled from the spec: \<open>HAL_TIM_Base_Stop_IT\<close> of the HAL driver, not among the
  sources. It halts the countdown of the handle's timer and disables its elapse interrupt
  (section 4.2, ``halts the countdown'').
\<close>

definition HAL_TIM_Base_Stop_IT :: "TIM_HandleTypeDef \<Rightarrow> timer_hw \<Rightarrow> timer_hw" where
  "HAL_TIM_Base_Stop_IT h s =
     s\<lparr>TIM := (TIM s)(Instance h := (TIM s (Instance h))\<lparr>UIE := False, CEN := False\<rparr>)\<rparr>"

text \<open>
  Modelled from the spec: the HAL macro \<open>__HAL_TIM_SET_COUNTER\<close>, not among the
  sources. It writes the counter of the handle's timer (section 4.2, ``resets its counter
  to zero'').
\<close>

definition HAL_TIM_SET_COUNTER :: "TIM_HandleTypeDef \<Rightarrow> 32 word \<Rightarrow> timer_hw \<Rightarrow> timer_hw" where
  "HAL_TIM_SET_COUNTER h v s =
     s\<lparr>TIM := (TIM s)(Instance h := (TIM s (Instance h))\<lparr>CNT := v\<rparr>)\<rparr>"

text \<open>
  Modelled from the spec: one tick of the hardware timer at an address. The source scales
  by ten, so a tick is a tenth of a millisecond (section 6). A halted timer does not
  change. A running timer counts the tick; when it has counted its period, the next tick
  is the elapse: the elapsed-flag is raised and, the timer being programmed ``to elapse
  once'' (section 4.2), the countdown halts. The duration is thereby honoured ``to within
  one hardware tick period'' (section 6).
\<close>

definition tick :: "32 word \<Rightarrow> timer_hw \<Rightarrow> timer_hw" where
  "tick a s =
     (if \<not> CEN (TIM s a) then s
      else if CNT (TIM s a) = ARR (TIM s a)
      then take_elapse_irq a (s\<lparr>TIM := (TIM s)(a := (TIM s a)\<lparr>UIF := True, CEN := False\<rparr>)\<rparr>)
      else s\<lparr>TIM := (TIM s)(a := (TIM s a)\<lparr>CNT := CNT (TIM s a) + 1\<rparr>)\<rparr>)"

text \<open>
  \<open>start_hal_timer\<close> receives the handle by value: the assignment to
  \<open>htim.Init.Period\<close> changes the local copy, which the three HAL calls then get by
  address; the global handle keeps its period. \<open>ms\<close> is a 32-bit \<open>int\<close>, read
  with \<open>sint\<close>; \<open>10*ms\<close> is computed in 32 bits, with the wrap-around a build
  for this target gives, and stored in the unsigned 32-bit \<open>Init.Period\<close> unchanged.
\<close>

definition start_hal_timer :: "TIM_HandleTypeDef \<Rightarrow> 32 word \<Rightarrow> timer_hw \<Rightarrow> timer_hw" where
  "start_hal_timer htim ms s =
     (let htim = htim\<lparr>Init_Period := 10 * ms\<rparr>;
          s = HAL_TIM_Base_Init htim s;
          s = HAL_TIM_CLEAR_IT htim TIM_IT_UPDATE s
      in HAL_TIM_Base_Start_IT htim s)"

definition start_timer :: "Timer \<Rightarrow> 32 word \<Rightarrow> timer_hw \<Rightarrow> timer_hw" where
  "start_timer timer ms s =
     (case timer of
        TIMER_1 \<Rightarrow> start_hal_timer (htim1 s) ms s
      | TIMER_2 \<Rightarrow> start_hal_timer (htim2 s) ms s
      | TIMER_3 \<Rightarrow> start_hal_timer (htim3 s) ms s
      | NUM_TIMERS \<Rightarrow> s)"

definition stop_hal_timer :: "TIM_HandleTypeDef \<Rightarrow> timer_hw \<Rightarrow> timer_hw" where
  "stop_hal_timer htim s =
     (let s = HAL_TIM_Base_Stop_IT htim s
      in HAL_TIM_SET_COUNTER htim 0 s)"

definition stop_timer :: "Timer \<Rightarrow> timer_hw \<Rightarrow> timer_hw" where
  "stop_timer timer s =
     (case timer of
        TIMER_1 \<Rightarrow> stop_hal_timer (htim1 s) s
      | TIMER_2 \<Rightarrow> stop_hal_timer (htim2 s) s
      | TIMER_3 \<Rightarrow> stop_hal_timer (htim3 s) s
      | NUM_TIMERS \<Rightarrow> s)"

text \<open>The handle a channel is bound to, and the registers of the timer that handle drives.\<close>

definition handle_of :: "Timer \<Rightarrow> timer_hw \<Rightarrow> TIM_HandleTypeDef" where
  "handle_of timer s = (case timer of TIMER_1 \<Rightarrow> htim1 s | TIMER_2 \<Rightarrow> htim2 s | _ \<Rightarrow> htim3 s)"

definition regs_of :: "Timer \<Rightarrow> timer_hw \<Rightarrow> TIM_regs" where
  "regs_of timer s = TIM s (Instance (handle_of timer s))"

text \<open>
  A sample hardware state for the examples: three handles on three distinct timers, all
  registers at their reset value, no elapse raised yet.
\<close>

definition hw_sample :: timer_hw where
  "hw_sample =
     \<lparr>htim1 = \<lparr>Instance = 0x40010000, Init_Period = 0\<rparr>,
      htim2 = \<lparr>Instance = 0x40000000, Init_Period = 0\<rparr>,
      htim3 = \<lparr>Instance = 0x40000400, Init_Period = 0\<rparr>,
      TIM = (\<lambda>_. \<lparr>ARR = 0, CNT = 0, UIF = False, UIE = False, CEN = False\<rparr>),
      elapsed = []\<rparr>"

text \<open>
  The sample state with the elapsed-flag of the second timer left pending by an earlier
  countdown that has run out.
\<close>

definition hw_pending :: timer_hw where
  "hw_pending =
     hw_sample\<lparr>TIM := (TIM hw_sample)
       (0x40000000 := \<lparr>ARR = 70, CNT = 70, UIF = True, UIE = False, CEN = False\<rparr>)\<rparr>"

section \<open>The generated state machine (FSM2.cpp)\<close>


datatype FSM2_event = TIMER_1_EVENT | TIMER_2_EVENT | TIMER_3_EVENT







text \<open>
  \<open>FSM2_S03::react\<close> and \<open>FSM2_S04::react\<close> for \<open>TIMER_2_EVENT\<close>, the first
  equation of each function. Neither class declares a reaction to another event type.
\<close>





section \<open>Properties of the queue operations\<close>

subsection \<open>One operation on a well-formed queue\<close>

lemma write_host_full:
  "advance N (tail q) = head q \<Longrightarrow> write_event_host N e q = Some q"
  by (auto simp: write_event_host_def advance_def Let_def split: if_splits)

lemma full_test_iff:
  "fifo_ok N q \<Longrightarrow>
   (tail q + 1 = head q \<or> (tail q + 1 = N \<and> head q = 0)) \<longleftrightarrow> advance N (tail q) = head q"
  by (auto simp: fifo_ok_def advance_def)

lemma length_contents:
  "fifo_ok N q \<Longrightarrow>
   int (length (contents q)) = (if head q \<le> tail q then tail q - head q else N - head q + tail q)"
  by (auto simp: fifo_ok_def contents_def)

lemma slice_store_last:
  "Suc t = length b \<Longrightarrow> h \<le> t \<Longrightarrow> drop h (b[t := e]) = drop h (take t b) @ [e]"
  by (simp add: upd_conv_take_nth_drop)

lemma slice_store_mid:
  "t < length b \<Longrightarrow> h \<le> t \<Longrightarrow> drop h (take (Suc t) (b[t := e])) = drop h (take t b) @ [e]"
  by (simp add: take_Suc_conv_app_nth)

lemma slice_store_wrapped:
  "t < h \<Longrightarrow> t < length b \<Longrightarrow>
   drop h (b[t := e]) @ take (Suc t) (b[t := e]) = (drop h b @ take t b) @ [e]"
  by (simp add: take_Suc_conv_app_nth)

lemma write_host_store:
  assumes ok: "fifo_ok N q" and nf: "advance N (tail q) \<noteq> head q"
  shows "\<exists>q'. write_event_host N e q = Some q' \<and> fifo_ok N q' \<and>
           contents q' = contents q @ [e] \<and> tail q' = advance N (tail q) \<and> head q' = head q
           \<and> tail q' \<noteq> tail q"
proof -
  define t where "t = nat (tail q)"
  define h where "h = nat (head q)"
  define b where "b = buffer q"
  from ok have len: "int (length b) = N" and t: "tail q = int t" and hh: "head q = int h"
    and tN: "int t < N" and hN: "int h < N"
    by (simp_all add: fifo_ok_def t_def h_def b_def)
  let ?q' = "q\<lparr>buffer := b[t := e], tail := advance N (tail q)\<rparr>"
  from nf ok have w: "write_event_host N e q = Some ?q'"
    by (auto simp: write_event_host_def advance_def Let_def fifo_ok_def t_def b_def)
  have ok': "fifo_ok N ?q'"
    using ok by (auto simp: fifo_ok_def advance_def b_def)
  have ne: "advance N (tail q) \<noteq> tail q"
    using ok nf by (auto simp: advance_def fifo_ok_def)
  have c: "contents ?q' = contents q @ [e]"
  proof (cases "tail q = N - 1")
    case True
    with nf hh have h0: "0 < h" by (auto simp: advance_def)
    from True t len have st: "Suc t = length b" by simp
    from hN True t have ht: "h \<le> t" by simp
    from True have adv: "advance N (int t) = 0" by (simp add: advance_def t)
    show ?thesis
      using h0 ht slice_store_last [OF st ht, of e]
      by (simp add: contents_def adv hh t b_def [symmetric])
  next
    case False
    with tN t len have tl: "t < length b" by simp
    show ?thesis
    proof (cases "h \<le> t")
      case True
      from False have adv: "advance N (int t) = int (Suc t)" by (simp add: advance_def t)
      from True show ?thesis
        using slice_store_mid [OF tl True, of e]
        by (simp add: contents_def adv hh t b_def [symmetric] del: of_nat_Suc)
    next
      case F2: False
      then have th: "t < h" by simp
      with nf False hh t have "Suc t < h" by (auto simp: advance_def)
      from False have adv: "advance N (int t) = int (Suc t)" by (simp add: advance_def t)
      from \<open>Suc t < h\<close> show ?thesis
        using th slice_store_wrapped [OF th tl, of e]
        by (simp add: contents_def adv hh t b_def [symmetric] del: of_nat_Suc)
    qed
  qed
  from w ok' c ne show ?thesis by auto
qed


lemma read_empty: "head q = tail q \<Longrightarrow> read_event N q ev = Some (0, q, ev)"
  by (simp add: read_event_def)

lemma read_nonempty:
  assumes ok: "fifo_ok N q" and ne: "head q \<noteq> tail q"
  shows "read_event N q ev = Some (1, q\<lparr>head := advance N (head q)\<rparr>, buffer q ! nat (head q))
         \<and> fifo_ok N (q\<lparr>head := advance N (head q)\<rparr>)
         \<and> contents q = buffer q ! nat (head q) # contents (q\<lparr>head := advance N (head q)\<rparr>)"
proof -
  define t where "t = nat (tail q)"
  define h where "h = nat (head q)"
  define b where "b = buffer q"
  from ok have len: "int (length b) = N" and t: "tail q = int t" and hh: "head q = int h"
    and tN: "int t < N" and hN: "int h < N"
    by (simp_all add: fifo_ok_def t_def h_def b_def)
  from hN len have hl: "h < length b" by simp
  from tN len have tl: "t < length b" by simp
  from ne hh t have neq: "h \<noteq> t" by simp
  have r: "read_event N q ev = Some (1, q\<lparr>head := advance N (head q)\<rparr>, buffer q ! nat (head q))"
    using ok ne by (simp add: read_event_def advance_def fifo_ok_def)
  have ok': "fifo_ok N (q\<lparr>head := advance N (head q)\<rparr>)"
    using ok by (auto simp: fifo_ok_def advance_def)
  have c: "contents q = b ! h # contents (q\<lparr>head := advance N (head q)\<rparr>)"
  proof (cases "head q = N - 1")
    case True
    from True have adv: "advance N (int h) = 0" by (simp add: advance_def hh)
    from True hh len have sh: "Suc h = length b" by simp
    with neq tl have th: "t < h" by simp
    from sh have "drop h b = [b ! h]"
      by (metis Cons_nth_drop_Suc drop_all hl le_refl)
    with th show ?thesis
      by (simp add: contents_def adv hh t b_def [symmetric])
  next
    case False
    from False have adv: "advance N (int h) = int (Suc h)" by (simp add: advance_def hh)
    show ?thesis
    proof (cases "h < t")
      case True
      with tl have "drop h (take t b) = b ! h # drop (Suc h) (take t b)"
        by (simp add: Cons_nth_drop_Suc [symmetric])
      with True show ?thesis
        by (simp add: contents_def adv hh t b_def [symmetric] del: of_nat_Suc)
    next
      case F2: False
      with neq have th: "t < h" by simp
      from hl have "drop h b = b ! h # drop (Suc h) b"
        by (simp add: Cons_nth_drop_Suc)
      with th show ?thesis
        by (simp add: contents_def adv hh t b_def [symmetric] del: of_nat_Suc)
    qed
  qed
  from r ok' c show ?thesis by (simp add: b_def h_def)
qed

lemma contents_empty_iff: "fifo_ok N q \<Longrightarrow> contents q = [] \<longleftrightarrow> head q = tail q"
  using length_contents [of N q] by (auto simp: fifo_ok_def split: if_splits)

lemma contents_full_iff:
  "fifo_ok N q \<Longrightarrow> int (length (contents q)) = N - 1 \<longleftrightarrow> advance N (tail q) = head q"
  using length_contents [of N q] by (auto simp: fifo_ok_def advance_def split: if_splits)

lemma contents_bound: "fifo_ok N q \<Longrightarrow> int (length (contents q)) \<le> N - 1"
  using length_contents [of N q] by (auto simp: fifo_ok_def split: if_splits)

lemma write_event_as_host:
  "write_event N e m =
     map_option (\<lambda>q. \<lparr>primask = False, fifo = q\<rparr>) (write_event_host N e (fifo m))"
  by (simp add: write_event_def write_event_host_def disable_irq_def enable_irq_def Let_def)

lemma fifo_do_write:
  "map_option fifo (do_write b N e m) = write_event_host N e (fifo m)"
  by (cases b) (simp_all add: do_write_def write_event_as_host option.map_comp comp_def option.map_ident)

subsection \<open>Sequences of operations\<close>

lemma do_write_cases:
  obtains (none) "do_write b N e m = None" "write_event_host N e (fifo m) = None"
  | (some) m' where "do_write b N e m = Some m'" "write_event_host N e (fifo m) = Some (fifo m')"
  using fifo_do_write [of b N e m] by (cases "do_write b N e m") auto

lemma step_enqueue_full:
  assumes "harness_ok N h" "advance N (tail (fifo (mach h))) = head (fifo (mach h))"
  shows "\<exists>h'. step b N (Enqueue e) h = Some h' \<and> harness_ok N h' \<and>
           fifo (mach h') = fifo (mach h) \<and> returned h' = returned h \<and>
           event_var h' = event_var h \<and> live h' = live h"
proof (cases rule: do_write_cases [of b N e "mach h"])
  case none
  with write_host_full [OF assms(2), of e] show ?thesis by simp
next
  case (some m')
  with write_host_full [OF assms(2), of e] have "fifo m' = fifo (mach h)" by simp
  with some assms(1) show ?thesis by (simp add: harness_ok_def)
qed

lemma step_enqueue_store:
  assumes "harness_ok N h" "advance N (tail (fifo (mach h))) \<noteq> head (fifo (mach h))"
  shows "\<exists>h'. step b N (Enqueue e) h = Some h' \<and> harness_ok N h' \<and>
           contents (fifo (mach h')) = contents (fifo (mach h)) @ [e] \<and>
           returned h' = returned h \<and> event_var h' = event_var h"
proof -
  from assms(1) have ok: "fifo_ok N (fifo (mach h))" by (simp add: harness_ok_def)
  from write_host_store [OF ok assms(2), of e] obtain q' where
    q': "write_event_host N e (fifo (mach h)) = Some q'" "fifo_ok N q'"
    "contents q' = contents (fifo (mach h)) @ [e]" "tail q' \<noteq> tail (fifo (mach h))"
    by blast
  show ?thesis
  proof (cases rule: do_write_cases [of b N e "mach h"])
    case none
    with q' show ?thesis by simp
  next
    case (some m')
    with q' have "fifo m' = q'" by simp
    with some q' assms(1) show ?thesis by (simp add: harness_ok_def)
  qed
qed

lemma step_dequeue_empty:
  assumes "head (fifo (mach h)) = tail (fifo (mach h))"
  shows "step b N Dequeue h = Some (h\<lparr>mach := (mach h)\<lparr>fifo := fifo (mach h)\<rparr>,
           event_var := event_var h, returned := returned h @ [(0, event_var h)],
           live := live h\<rparr>)"
  using read_empty [OF assms, of N "event_var h"] by simp

lemma step_dequeue_nonempty:
  assumes "harness_ok N h" "head (fifo (mach h)) \<noteq> tail (fifo (mach h))"
  shows "\<exists>h' x. step b N Dequeue h = Some h' \<and> harness_ok N h' \<and>
           contents (fifo (mach h)) = x # contents (fifo (mach h')) \<and>
           returned h' = returned h @ [(1, x)] \<and> event_var h' = x"
proof -
  from assms(1) have ok: "fifo_ok N (fifo (mach h))" by (simp add: harness_ok_def)
  from read_nonempty [OF ok assms(2), of "event_var h"] assms(1) show ?thesis
    by (auto simp: harness_ok_def)
qed

lemma step_ok:
  assumes "harness_ok N h"
  shows "\<exists>h'. step b N x h = Some h' \<and> harness_ok N h'"
proof (cases x)
  case (Enqueue e)
  show ?thesis
  proof (cases "advance N (tail (fifo (mach h))) = head (fifo (mach h))")
    case True
    from step_enqueue_full [OF assms True, of b e] Enqueue show ?thesis by blast
  next
    case False
    from step_enqueue_store [OF assms False, of b e] Enqueue show ?thesis by blast
  qed
next
  case Dequeue
  show ?thesis
  proof (cases "head (fifo (mach h)) = tail (fifo (mach h))")
    case True
    from step_dequeue_empty [OF True, of b N] assms Dequeue show ?thesis
      by (simp add: harness_ok_def)
  next
    case False
    from step_dequeue_nonempty [OF assms False, of b] Dequeue show ?thesis by blast
  qed
qed

lemma run_ok:
  "harness_ok N h \<Longrightarrow> \<exists>h'. run b N xs h = Some h' \<and> harness_ok N h'"
proof (induction xs arbitrary: h)
  case Nil
  then show ?case by simp
next
  case (Cons x xs)
  from step_ok [OF Cons.prems, of b x] obtain h1 where
    "step b N x h = Some h1" "harness_ok N h1" by blast
  with Cons.IH [of h1] show ?case by simp
qed

lemma fifo_init_ok: "0 < N \<Longrightarrow> fifo_ok N (fifo_init N)"
  by (simp add: fifo_ok_def fifo_init_def)

lemma harness_init_ok: "0 < N \<Longrightarrow> harness_ok N (harness_init N ev0)"
  by (simp add: harness_ok_def harness_init_def fifo_init_ok) (simp add: contents_def fifo_init_def)

lemma run_append:
  "run b N (xs @ ys) h = (case run b N xs h of None \<Rightarrow> None | Some h' \<Rightarrow> run b N ys h')"
  by (induction xs arbitrary: h) (simp_all split: option.splits)

lemma step_observe:
  assumes "observe h1 = observe h2"
  shows "map_option observe (step b N x h1) = map_option observe (step b N x h2)"
proof (cases x)
  case (Enqueue e)
  from assms have f: "fifo (mach h1) = fifo (mach h2)" and l: "live h1 = live h2"
    and r: "returned h1 = returned h2" and v: "event_var h1 = event_var h2"
    by (simp_all add: observe_def)
  show ?thesis
  proof (cases rule: do_write_cases [of b N e "mach h1"])
    case none
    note n1 = this
    show ?thesis
    proof (cases rule: do_write_cases [of b N e "mach h2"])
      case none
      with n1 Enqueue show ?thesis by simp
    next
      case (some m')
      with n1 f show ?thesis by simp
    qed
  next
    case (some m1)
    note s1 = this
    show ?thesis
    proof (cases rule: do_write_cases [of b N e "mach h2"])
      case none
      with s1 f show ?thesis by simp
    next
      case (some m2)
      with s1 f have "fifo m1 = fifo m2" by simp
      with s1 some Enqueue f l r v show ?thesis by (simp add: observe_def)
    qed
  qed
next
  case Dequeue
  with assms show ?thesis
    by (auto simp: observe_def split: option.splits)
qed

lemma run_observe:
  "observe h1 = observe h2 \<Longrightarrow>
   map_option observe (run b N xs h1) = map_option observe (run b N xs h2)"
proof (induction xs arbitrary: h1 h2)
  case Nil
  then show ?case by simp
next
  case (Cons x xs)
  show ?case
  proof (cases "step b N x h1")
    case None
    with step_observe [OF Cons.prems, of b N x] show ?thesis by simp
  next
    case (Some h1')
    with step_observe [OF Cons.prems, of b N x] obtain h2' where
      "step b N x h2 = Some h2'" "observe h1' = observe h2'"
      by (cases "step b N x h2") auto
    with Some Cons.IH [of h1' h2'] show ?thesis by simp
  qed
qed

lemma enqueue_all:
  assumes "harness_ok N h"
    "int (length (contents (fifo (mach h)))) + int (length es) \<le> N - 1"
  shows "\<exists>h'. run b N (map Enqueue es) h = Some h' \<and> harness_ok N h' \<and>
           contents (fifo (mach h')) = contents (fifo (mach h)) @ es \<and>
           returned h' = returned h \<and> event_var h' = event_var h"
  using assms
proof (induction es arbitrary: h)
  case Nil
  then show ?case by simp
next
  case (Cons e es)
  from Cons.prems have ok: "fifo_ok N (fifo (mach h))" by (simp add: harness_ok_def)
  from Cons.prems(2) have "int (length (contents (fifo (mach h)))) \<noteq> N - 1" by simp
  with contents_full_iff [OF ok]
  have nf: "advance N (tail (fifo (mach h))) \<noteq> head (fifo (mach h))" by simp
  from step_enqueue_store [OF Cons.prems(1) nf, of b e] obtain h1 where
    h1: "step b N (Enqueue e) h = Some h1" "harness_ok N h1"
    "contents (fifo (mach h1)) = contents (fifo (mach h)) @ [e]"
    "returned h1 = returned h" "event_var h1 = event_var h" by blast
  with Cons.prems(2) have
    "int (length (contents (fifo (mach h1)))) + int (length es) \<le> N - 1" by simp
  from Cons.IH [OF h1(2) this] h1 show ?case by auto
qed

lemma dequeue_all:
  assumes "harness_ok N h" "contents (fifo (mach h)) = xs @ ys"
  shows "\<exists>h'. run b N (replicate (length xs) Dequeue) h = Some h' \<and> harness_ok N h' \<and>
           contents (fifo (mach h')) = ys \<and>
           returned h' = returned h @ map (\<lambda>e. (1, e)) xs \<and>
           event_var h' = last (event_var h # xs)"
  using assms
proof (induction xs arbitrary: h)
  case Nil
  then show ?case by simp
next
  case (Cons x xs)
  from Cons.prems have ok: "fifo_ok N (fifo (mach h))" by (simp add: harness_ok_def)
  from Cons.prems(2) contents_empty_iff [OF ok]
  have ne: "head (fifo (mach h)) \<noteq> tail (fifo (mach h))" by auto
  from step_dequeue_nonempty [OF Cons.prems(1) ne, of b] obtain h1 y where
    h1: "step b N Dequeue h = Some h1" "harness_ok N h1"
    "contents (fifo (mach h)) = y # contents (fifo (mach h1))"
    "returned h1 = returned h @ [(1, y)]" "event_var h1 = y" by blast
  with Cons.prems(2) have y: "y = x" and c: "contents (fifo (mach h1)) = xs @ ys" by simp_all
  from Cons.IH [OF h1(2) c] h1 y show ?case by auto
qed

section \<open>The queue claims\<close>

text \<open>
  C1. For every sequence of \<open>write_event\<close> and \<open>read_event\<close> calls from the
  initial queue, in either build: the run goes through, the queue holds no live entry iff
  \<open>head = tail\<close>, it holds \<open>FIFO_SIZE - 1\<close> live entries iff advancing \<open>tail\<close>
  by one with wraparound gives \<open>head\<close>, and the live entries are never more than
  \<open>FIFO_SIZE - 1\<close>. The live count is the distance from \<open>head\<close> to \<open>tail\<close>
  modulo \<open>FIFO_SIZE\<close> after every sequence, dropped writes included, so a drop
  leaves the relation of the two indices intact.
\<close>

theorem fifo_invariant:
  assumes "0 < FIFO_SIZE"
  shows "\<exists>h. run b FIFO_SIZE ops (harness_init FIFO_SIZE ev0) = Some h \<and>
           (live h = 0 \<longleftrightarrow> head (fifo (mach h)) = tail (fifo (mach h))) \<and>
           (live h = FIFO_SIZE - 1 \<longleftrightarrow>
              advance FIFO_SIZE (tail (fifo (mach h))) = head (fifo (mach h))) \<and>
           0 \<le> live h \<and> live h \<le> FIFO_SIZE - 1 \<and>
           live h = (tail (fifo (mach h)) - head (fifo (mach h))) mod FIFO_SIZE"
proof -
  from run_ok [OF harness_init_ok [OF assms]] obtain h where
    h: "run b FIFO_SIZE ops (harness_init FIFO_SIZE ev0) = Some h" "harness_ok FIFO_SIZE h"
    by blast
  let ?q = "fifo (mach h)"
  from h(2) have ok: "fifo_ok FIFO_SIZE ?q" and l: "live h = int (length (contents ?q))"
    by (simp_all add: harness_ok_def)
  from contents_empty_iff [OF ok] l have e: "live h = 0 \<longleftrightarrow> head ?q = tail ?q" by simp
  from contents_full_iff [OF ok] l
  have f: "live h = FIFO_SIZE - 1 \<longleftrightarrow> advance FIFO_SIZE (tail ?q) = head ?q" by simp
  from contents_bound [OF ok] l have b: "0 \<le> live h" "live h \<le> FIFO_SIZE - 1" by simp_all
  have m: "live h = (tail ?q - head ?q) mod FIFO_SIZE"
  proof (cases "head ?q \<le> tail ?q")
    case True
    with ok length_contents [OF ok] l show ?thesis
      by (simp add: fifo_ok_def)
  next
    case False
    from False ok have "(tail ?q - head ?q + FIFO_SIZE) mod FIFO_SIZE
        = tail ?q - head ?q + FIFO_SIZE"
      by (intro mod_pos_pos_trivial) (auto simp: fifo_ok_def)
    then have "(tail ?q - head ?q) mod FIFO_SIZE = tail ?q - head ?q + FIFO_SIZE" by simp
    with False length_contents [OF ok] l show ?thesis by simp
  qed
  from h(1) e f b m show ?thesis by blast
qed

theorem fifo_invariant_witness:
  "(0::int) < 4 \<and>
   (\<exists>h. run Target 4 [Enqueue 1, Enqueue 2, Dequeue] (harness_init 4 0) = Some h \<and>
      (live h = 0 \<longleftrightarrow> head (fifo (mach h)) = tail (fifo (mach h))) \<and>
      (live h = 4 - 1 \<longleftrightarrow> advance 4 (tail (fifo (mach h))) = head (fifo (mach h))) \<and>
      0 \<le> live h \<and> live h \<le> 4 - 1 \<and>
      live h = (tail (fifo (mach h)) - head (fifo (mach h))) mod 4)"
  using fifo_invariant [of 4 Target "[Enqueue 1, Enqueue 2, Dequeue]" 0] by simp

text \<open>
  C2. \<open>write_event\<close> on a full queue (advancing \<open>tail\<close> gives \<open>head\<close>, which by
  C1 is the queue with \<open>FIFO_SIZE - 1\<close> live entries) returns normally and leaves
  buffer, \<open>head\<close> and \<open>tail\<close> as they were, in both builds. Whatever calls follow,
  the reads return what they would have returned without the dropped write, so the extra
  event is never retrieved.
\<close>

theorem write_event_full_drop:
  assumes "advance FIFO_SIZE (tail (fifo (mach h))) = head (fifo (mach h))"
  shows "write_event_host FIFO_SIZE e (fifo (mach h)) = Some (fifo (mach h)) \<and>
         map_option fifo (write_event FIFO_SIZE e (mach h)) = Some (fifo (mach h)) \<and>
         map_option observe (run b FIFO_SIZE (Enqueue e # ops) h) =
           map_option observe (run b FIFO_SIZE ops h)"
proof -
  have w: "write_event_host FIFO_SIZE e (fifo (mach h)) = Some (fifo (mach h))"
    by (rule write_host_full [OF assms])
  then have t: "map_option fifo (write_event FIFO_SIZE e (mach h)) = Some (fifo (mach h))"
    by (simp add: write_event_as_host)
  have "\<exists>h'. step b FIFO_SIZE (Enqueue e) h = Some h' \<and> observe h' = observe h"
  proof (cases rule: do_write_cases [of b FIFO_SIZE e "mach h"])
    case none
    with w show ?thesis by simp
  next
    case (some m')
    with w show ?thesis by (simp add: observe_def)
  qed
  then obtain h' where h': "step b FIFO_SIZE (Enqueue e) h = Some h'" "observe h' = observe h"
    by blast
  from run_observe [OF h'(2), of b FIFO_SIZE ops] h'(1)
  have "map_option observe (run b FIFO_SIZE (Enqueue e # ops) h) =
          map_option observe (run b FIFO_SIZE ops h)" by simp
  with w t show ?thesis by simp
qed

theorem write_event_full_drop_witness:
  "advance 2 (tail (fifo (mach \<lparr>mach = \<lparr>primask = False,
       fifo = \<lparr>buffer = [7, 0], head = 0, tail = 1\<rparr>\<rparr>,
       event_var = 0, returned = [], live = 1\<rparr>)))
     = head (fifo (mach \<lparr>mach = \<lparr>primask = False,
       fifo = \<lparr>buffer = [7, 0], head = 0, tail = 1\<rparr>\<rparr>,
       event_var = 0, returned = [], live = 1\<rparr>)) \<and>
   write_event_host 2 9 \<lparr>buffer = [7, 0], head = 0, tail = 1\<rparr>
     = Some \<lparr>buffer = [7, 0], head = 0, tail = 1\<rparr> \<and>
   map_option observe (run Target 2 [Enqueue 9, Dequeue, Dequeue]
     \<lparr>mach = \<lparr>primask = False, fifo = \<lparr>buffer = [7, 0], head = 0, tail = 1\<rparr>\<rparr>,
      event_var = 0, returned = [], live = 1\<rparr>)
     = map_option observe (run Target 2 [Dequeue, Dequeue]
     \<lparr>mach = \<lparr>primask = False, fifo = \<lparr>buffer = [7, 0], head = 0, tail = 1\<rparr>\<rparr>,
      event_var = 0, returned = [], live = 1\<rparr>)"
  using write_event_full_drop [of 2
      "\<lparr>mach = \<lparr>primask = False, fifo = \<lparr>buffer = [7, 0], head = 0, tail = 1\<rparr>\<rparr>,
        event_var = 0, returned = [], live = 1\<rparr>" 9 Target "[Dequeue, Dequeue]"]
  by (simp add: advance_def)

text \<open>
  C3. For events \<open>es\<close>, fewer than \<open>FIFO_SIZE\<close>: writing them to the initial queue
  and then reading as many times succeeds each time (result 1) and yields exactly
  \<open>es\<close>, in order; the queue is empty again afterwards. This holds in both builds.
\<close>

theorem fifo_round_trip:
  assumes "int (length es) < FIFO_SIZE"
  shows "\<exists>h. run b FIFO_SIZE (map Enqueue es @ replicate (length es) Dequeue)
                (harness_init FIFO_SIZE ev0) = Some h \<and>
              returned h = map (\<lambda>e. (1, e)) es \<and>
              head (fifo (mach h)) = tail (fifo (mach h))"
proof -
  let ?h0 = "harness_init FIFO_SIZE ev0"
  from assms have pos: "0 < FIFO_SIZE" by simp
  have ok0: "harness_ok FIFO_SIZE ?h0" by (rule harness_init_ok [OF pos])
  have c0: "contents (fifo (mach ?h0)) = []"
    by (simp add: harness_init_def fifo_init_def contents_def)
  have r0: "returned ?h0 = []" by (simp add: harness_init_def)
  from assms c0 have "int (length (contents (fifo (mach ?h0)))) + int (length es)
      \<le> FIFO_SIZE - 1" by simp
  from enqueue_all [OF ok0 this, of b] c0 r0 obtain h1 where
    h1: "run b FIFO_SIZE (map Enqueue es) ?h0 = Some h1" "harness_ok FIFO_SIZE h1"
    "contents (fifo (mach h1)) = es @ []" "returned h1 = []" by auto
  from dequeue_all [OF h1(2) h1(3), of b] h1(4) obtain h2 where
    h2: "run b FIFO_SIZE (replicate (length es) Dequeue) h1 = Some h2"
    "harness_ok FIFO_SIZE h2" "contents (fifo (mach h2)) = []"
    "returned h2 = map (\<lambda>e. (1, e)) es" by auto
  from h2(2) have "fifo_ok FIFO_SIZE (fifo (mach h2))" by (simp add: harness_ok_def)
  from contents_empty_iff [OF this] h2(3)
  have "head (fifo (mach h2)) = tail (fifo (mach h2))" by simp
  with h1(1) h2(1) h2(4) show ?thesis by (simp add: run_append)
qed

theorem fifo_round_trip_witness:
  "int (length [11, 12, 13 :: int]) < 4 \<and>
   (\<exists>h. run Host 4 (map Enqueue [11, 12, 13] @ replicate (length [11, 12, 13 :: int]) Dequeue)
          (harness_init 4 0) = Some h \<and>
        returned h = [(1, 11), (1, 12), (1, 13)] \<and>
        head (fifo (mach h)) = tail (fifo (mach h)))"
  using fifo_round_trip [of "[11, 12, 13]" 4 Host 0] by simp

text \<open>
  C4. The interrupt-guarded \<open>write_event\<close> and the host one compute the same queue
  (buffer, \<open>head\<close>, \<open>tail\<close>) from every queue and event, and the one indexes the
  buffer out of range exactly when the other does. So both keep the queue invariant: from
  a well-formed queue both return the same well-formed queue, the guarded one with
  interrupts enabled again.
\<close>

theorem write_event_builds_agree:
  "map_option fifo (write_event FIFO_SIZE e m) = write_event_host FIFO_SIZE e (fifo m) \<and>
   (fifo_ok FIFO_SIZE (fifo m) \<longrightarrow>
      (\<exists>m'. write_event FIFO_SIZE e m = Some m' \<and> \<not> primask m' \<and>
            write_event_host FIFO_SIZE e (fifo m) = Some (fifo m') \<and>
            fifo_ok FIFO_SIZE (fifo m')))"
proof -
  have eq: "map_option fifo (write_event FIFO_SIZE e m) = write_event_host FIFO_SIZE e (fifo m)"
    by (simp add: write_event_def write_event_host_def disable_irq_def enable_irq_def Let_def)
  have inv: "\<exists>m'. write_event FIFO_SIZE e m = Some m' \<and> \<not> primask m' \<and>
            write_event_host FIFO_SIZE e (fifo m) = Some (fifo m') \<and>
            fifo_ok FIFO_SIZE (fifo m')" if ok: "fifo_ok FIFO_SIZE (fifo m)"
  proof -
    have "\<exists>q'. write_event_host FIFO_SIZE e (fifo m) = Some q' \<and> fifo_ok FIFO_SIZE q'"
    proof (cases "advance FIFO_SIZE (tail (fifo m)) = head (fifo m)")
      case True
      from write_host_full [OF True, of e] ok show ?thesis by simp
    next
      case False
      from write_host_store [OF ok False, of e] show ?thesis by blast
    qed
    then obtain q' where "write_event_host FIFO_SIZE e (fifo m) = Some q'"
      "fifo_ok FIFO_SIZE q'" by blast
    then show ?thesis by (simp add: write_event_as_host)
  qed
  from eq inv show ?thesis by blast
qed

theorem write_event_builds_agree_witness:
  "fifo_ok 3 (fifo \<lparr>primask = True, fifo = fifo_init 3\<rparr>) \<and>
   (\<exists>m'. write_event 3 5 \<lparr>primask = True, fifo = fifo_init 3\<rparr> = Some m' \<and> \<not> primask m' \<and>
         write_event_host 3 5 (fifo_init 3) = Some (fifo m') \<and> fifo_ok 3 (fifo m'))"
  using write_event_builds_agree [of 3 5 "\<lparr>primask = True, fifo = fifo_init 3\<rparr>"]
  by (simp add: fifo_ok_def fifo_init_def)

text \<open>
  C7. On a well-formed queue \<open>read_event\<close> returns 0, with queue and event variable
  as they were, when \<open>head = tail\<close>; otherwise it returns 1, puts the event of the
  slot at \<open>head\<close> into the event variable and advances \<open>head\<close> by one with
  wraparound at \<open>FIFO_SIZE\<close>. It always returns one of the two results, and 0 exactly
  when \<open>head = tail\<close>.
\<close>

theorem read_event_result:
  assumes "fifo_ok FIFO_SIZE q"
  shows "(head q = tail q \<longrightarrow> read_event FIFO_SIZE q ev = Some (0, q, ev)) \<and>
         (head q \<noteq> tail q \<longrightarrow>
            read_event FIFO_SIZE q ev =
              Some (1, q\<lparr>head := advance FIFO_SIZE (head q)\<rparr>, buffer q ! nat (head q))) \<and>
         (\<exists>r q' ev'. read_event FIFO_SIZE q ev = Some (r, q', ev') \<and>
            (r = 0 \<or> r = 1) \<and> (r = 0 \<longleftrightarrow> head q = tail q))"
proof (cases "head q = tail q")
  case True
  with read_empty [OF True, of FIFO_SIZE ev] show ?thesis by simp
next
  case False
  with read_nonempty [OF assms False, of ev] show ?thesis by simp
qed

theorem read_event_result_witness:
  "fifo_ok 2 (fifo_init 2) \<and> head (fifo_init 2) = tail (fifo_init 2) \<and>
   read_event 2 (fifo_init 2) 5 = Some (0, fifo_init 2, 5) \<and>
   fifo_ok 2 \<lparr>buffer = [7, 0], head = 0, tail = 1\<rparr> \<and>
   head \<lparr>buffer = [7, 0], head = 0, tail = 1\<rparr> \<noteq> tail \<lparr>buffer = [7, 0], head = 0, tail = 1\<rparr> \<and>
   read_event 2 \<lparr>buffer = [7, 0], head = 0, tail = 1\<rparr> 5 =
     Some (1, \<lparr>buffer = [7, 0], head = 1, tail = 1\<rparr>, 7)"
  using read_event_result [of 2 "fifo_init 2" 5]
    read_event_result [of 2 "\<lparr>buffer = [7, 0], head = 0, tail = 1\<rparr>" 5]
  by (simp add: fifo_ok_def fifo_init_def advance_def)

text \<open>
  C9. For every sequence of \<open>write_event\<close> and \<open>read_event\<close> calls from the
  initial queue, in either build, no call indexes the buffer out of range (the run returns
  a state), and \<open>head\<close> and \<open>tail\<close> are within \<open>[0, FIFO_SIZE)\<close> at the end
  of it, the buffer still having \<open>FIFO_SIZE\<close> slots.
\<close>

theorem fifo_indices_in_bounds:
  assumes "0 < FIFO_SIZE"
  shows "\<exists>h. run b FIFO_SIZE ops (harness_init FIFO_SIZE ev0) = Some h \<and>
           0 \<le> head (fifo (mach h)) \<and> head (fifo (mach h)) < FIFO_SIZE \<and>
           0 \<le> tail (fifo (mach h)) \<and> tail (fifo (mach h)) < FIFO_SIZE \<and>
           int (length (buffer (fifo (mach h)))) = FIFO_SIZE"
proof -
  from run_ok [OF harness_init_ok [OF assms]] obtain h where
    "run b FIFO_SIZE ops (harness_init FIFO_SIZE ev0) = Some h" "harness_ok FIFO_SIZE h"
    by blast
  then show ?thesis by (auto simp: harness_ok_def fifo_ok_def)
qed

theorem fifo_indices_in_bounds_witness:
  "(0::int) < 3 \<and>
   (\<exists>h. run Host 3 [Enqueue 5, Enqueue 6, Enqueue 7, Dequeue, Enqueue 8, Dequeue, Dequeue, Dequeue]
          (harness_init 3 0) = Some h \<and>
      0 \<le> head (fifo (mach h)) \<and> head (fifo (mach h)) < 3 \<and>
      0 \<le> tail (fifo (mach h)) \<and> tail (fifo (mach h)) < 3 \<and>
      int (length (buffer (fifo (mach h)))) = 3)"
  using fifo_indices_in_bounds [of 3 Host
      "[Enqueue 5, Enqueue 6, Enqueue 7, Dequeue, Enqueue 8, Dequeue, Dequeue, Dequeue]" 0]
  by simp

text \<open>
  C10. On an empty queue (\<open>head = tail\<close>) \<open>read_event\<close> returns 0 and the
  caller's event variable keeps the value it had, whatever that was; the queue is
  unchanged too.
\<close>

theorem read_event_empty_frame:
  assumes "head q = tail q"
  shows "read_event FIFO_SIZE q ev = Some (0, q, ev)"
  using assms by (simp add: read_event_def)

theorem read_event_empty_frame_witness:
  "head (fifo_init 4) = tail (fifo_init 4) \<and>
   read_event 4 (fifo_init 4) 42 = Some (0, fifo_init 4, 42)"
  using read_event_empty_frame [of "fifo_init 4" 4 42] by (simp add: fifo_init_def)

section \<open>Properties of the timer service\<close>

lemma period_value:
  assumes "0 \<le> sint ms" "sint ms \<le> 214748364"
  shows "uint (10 * ms :: 32 word) = 10 * sint ms"
proof -
  have "uint ms = take_bit 32 (sint ms)"
    by (simp add: uint_sint)
  with assms have u: "uint ms = sint ms"
    by (simp add: take_bit_int_eq_self)
  with assms(2) have "10 * uint ms < 2 ^ 32" by simp
  then have "uint (10 * ms) = 10 * uint ms"
    by (simp add: uint_word_ariths take_bit_int_eq_self)
  with u show ?thesis by simp
qed

lemmas hal_defs = HAL_TIM_Base_Init_def HAL_TIM_CLEAR_IT_def HAL_TIM_Base_Start_IT_def
  HAL_TIM_Base_Stop_IT_def HAL_TIM_SET_COUNTER_def take_elapse_irq_def

lemma start_hal_timer_eq:
  "start_hal_timer h ms s =
     s\<lparr>TIM := (TIM s)(Instance h :=
          (TIM s (Instance h))\<lparr>ARR := 10 * ms, CNT := 0, UIF := False, UIE := True, CEN := True\<rparr>)\<rparr>"
  by (simp add: start_hal_timer_def hal_defs)

lemma stop_hal_timer_eq:
  "stop_hal_timer h s =
     s\<lparr>TIM := (TIM s)(Instance h :=
          (TIM s (Instance h))\<lparr>UIE := False, CEN := False, CNT := 0\<rparr>)\<rparr>"
  by (simp add: stop_hal_timer_def hal_defs)

lemma start_timer_eq:
  "timer \<noteq> NUM_TIMERS \<Longrightarrow>
   start_timer timer ms s =
     s\<lparr>TIM := (TIM s)(Instance (handle_of timer s) :=
          (regs_of timer s)\<lparr>ARR := 10 * ms, CNT := 0, UIF := False, UIE := True, CEN := True\<rparr>)\<rparr>"
  by (cases timer) (simp_all add: start_timer_def start_hal_timer_eq handle_of_def regs_of_def)

lemma stop_timer_eq:
  "timer \<noteq> NUM_TIMERS \<Longrightarrow>
   stop_timer timer s =
     s\<lparr>TIM := (TIM s)(Instance (handle_of timer s) :=
          (regs_of timer s)\<lparr>UIE := False, CEN := False, CNT := 0\<rparr>)\<rparr>"
  by (cases timer) (simp_all add: stop_timer_def stop_hal_timer_eq handle_of_def regs_of_def)

lemma handle_of_upd [simp]: "handle_of timer (s\<lparr>TIM := f\<rparr>) = handle_of timer s"
  by (cases timer) (simp_all add: handle_of_def)

lemma stop_timer_idem: "stop_timer timer (stop_timer timer s) = stop_timer timer s"
proof (cases "timer = NUM_TIMERS")
  case True
  then show ?thesis by (simp add: stop_timer_def)
next
  case False
  then show ?thesis by (simp add: stop_timer_eq regs_of_def)
qed

lemma stop_timer_regs:
  "timer \<noteq> NUM_TIMERS \<Longrightarrow>
   regs_of timer (stop_timer timer s) = (regs_of timer s)\<lparr>UIE := False, CEN := False, CNT := 0\<rparr>"
  by (simp add: stop_timer_eq regs_of_def)

lemma stop_timer_noop:
  assumes "timer \<noteq> NUM_TIMERS" "CNT (regs_of timer s) = 0" "\<not> UIE (regs_of timer s)"
    "\<not> CEN (regs_of timer s)"
  shows "stop_timer timer s = s"
proof -
  from assms have "(regs_of timer s)\<lparr>UIE := False, CEN := False, CNT := 0\<rparr> = regs_of timer s"
    by simp
  with assms(1) show ?thesis by (simp add: stop_timer_eq regs_of_def)
qed

lemma start_timer_regs:
  "timer \<noteq> NUM_TIMERS \<Longrightarrow>
   regs_of timer (start_timer timer ms s) =
     (regs_of timer s)\<lparr>ARR := 10 * ms, CNT := 0, UIF := False, UIE := True, CEN := True\<rparr>"
  by (simp add: start_timer_eq regs_of_def)


subsection \<open>The order of the calls in a start\<close>

text \<open>
  A start delivers no elapse, whatever state it finds. This rests on the order of its
  calls: starting the countdown while the flag is still pending delivers a stale elapse,
  and so does a start that clears the flag only after it has started the countdown.
\<close>

lemma start_timer_elapsed:
  "elapsed (start_timer timer ms s) = elapsed s"
proof (cases "timer = NUM_TIMERS")
  case True
  then show ?thesis by (simp add: start_timer_def)
next
  case False
  then show ?thesis by (simp add: start_timer_eq)
qed

lemma start_on_pending_flag:
  "UIF (TIM s (Instance h)) \<Longrightarrow>
   elapsed (HAL_TIM_Base_Start_IT h s) = elapsed s @ [Instance h]"
  by (simp add: HAL_TIM_Base_Start_IT_def take_elapse_irq_def)

lemma start_then_clear_raises:
  "UIF (TIM s (Instance h)) \<Longrightarrow>
   elapsed (HAL_TIM_CLEAR_IT h TIM_IT_UPDATE (HAL_TIM_Base_Start_IT h (HAL_TIM_Base_Init h s)))
     = elapsed s @ [Instance h]"
  by (simp add: hal_defs)

lemma start_first_raises:
  "UIF (TIM s (Instance h)) \<Longrightarrow>
   elapsed (HAL_TIM_CLEAR_IT h TIM_IT_UPDATE (HAL_TIM_Base_Init h (HAL_TIM_Base_Start_IT h s)))
     = elapsed s @ [Instance h]"
  by (simp add: hal_defs)

subsection \<open>Counting ticks\<close>

lemma word_of_nat_neq:
  assumes "k < unat (w :: 32 word)"
  shows "(of_nat k :: 32 word) \<noteq> w"
proof
  assume "(of_nat k :: 32 word) = w"
  then have "unat (of_nat k :: 32 word) = unat w" by simp
  moreover from assms have "k < 2 ^ 32" using unsigned_less [of w, where 'a = nat] by simp
  ultimately have "k = unat w" by (simp add: unat_of_nat)
  with assms show False by simp
qed

lemma tick_count_step:
  "CEN (TIM s a) \<Longrightarrow> CNT (TIM s a) \<noteq> ARR (TIM s a) \<Longrightarrow>
   tick a s = s\<lparr>TIM := (TIM s)(a := (TIM s a)\<lparr>CNT := CNT (TIM s a) + 1\<rparr>)\<rparr>"
  by (simp add: tick_def)

lemma tick_elapse_step:
  "CEN (TIM s a) \<Longrightarrow> UIE (TIM s a) \<Longrightarrow> CNT (TIM s a) = ARR (TIM s a) \<Longrightarrow>
   tick a s = s\<lparr>TIM := (TIM s)(a := (TIM s a)\<lparr>CEN := False, UIF := False\<rparr>),
                elapsed := elapsed s @ [a]\<rparr>"
  by (simp add: tick_def take_elapse_irq_def)

lemma tick_halted_step: "\<not> CEN (TIM s a) \<Longrightarrow> tick a s = s"
  by (simp add: tick_def)

lemma tick_counts:
  assumes "CEN (TIM s a)" "CNT (TIM s a) = 0" "k \<le> unat (ARR (TIM s a))"
  shows "(tick a ^^ k) s = s\<lparr>TIM := (TIM s)(a := (TIM s a)\<lparr>CNT := of_nat k\<rparr>)\<rparr>"
  using assms(3)
proof (induction k)
  case 0
  from assms(2) have "(TIM s a)\<lparr>CNT := 0\<rparr> = TIM s a" by simp
  then show ?case by simp
next
  case (Suc k)
  then have k: "k < unat (ARR (TIM s a))" by simp
  let ?sk = "s\<lparr>TIM := (TIM s)(a := (TIM s a)\<lparr>CNT := of_nat k\<rparr>)\<rparr>"
  from k have "k \<le> unat (ARR (TIM s a))" by simp
  from Suc.IH [OF this] have ih: "(tick a ^^ k) s = ?sk" .
  from assms(1) have c: "CEN (TIM ?sk a)" by simp
  from word_of_nat_neq [OF k] have ne: "CNT (TIM ?sk a) \<noteq> ARR (TIM ?sk a)" by simp
  have "(tick a ^^ Suc k) s = tick a ?sk" by (simp add: ih)
  also from tick_count_step [OF c ne]
  have "tick a ?sk = s\<lparr>TIM := (TIM s)(a := (TIM s a)\<lparr>CNT := of_nat (Suc k)\<rparr>)\<rparr>"
    by (simp add: add.commute)
  finally show ?case .
qed

lemma tick_elapses:
  assumes "CEN (TIM s a)" "UIE (TIM s a)" "CNT (TIM s a) = 0"
  shows "(tick a ^^ Suc (unat (ARR (TIM s a)))) s =
           s\<lparr>TIM := (TIM s)(a := (TIM s a)\<lparr>CNT := ARR (TIM s a), CEN := False, UIF := False\<rparr>),
             elapsed := elapsed s @ [a]\<rparr>"
proof -
  let ?sp = "s\<lparr>TIM := (TIM s)(a := (TIM s a)\<lparr>CNT := ARR (TIM s a)\<rparr>)\<rparr>"
  from tick_counts [OF assms(1,3) order_refl]
  have p: "(tick a ^^ unat (ARR (TIM s a))) s = ?sp" by simp
  from assms have "CEN (TIM ?sp a)" "UIE (TIM ?sp a)" "CNT (TIM ?sp a) = ARR (TIM ?sp a)"
    by simp_all
  from tick_elapse_step [OF this] have "tick a ?sp =
      s\<lparr>TIM := (TIM s)(a := (TIM s a)\<lparr>CNT := ARR (TIM s a), CEN := False, UIF := False\<rparr>),
        elapsed := elapsed s @ [a]\<rparr>" by simp
  with p show ?thesis by simp
qed

lemma tick_halted: "\<not> CEN (TIM s a) \<Longrightarrow> (tick a ^^ k) s = s"
proof (induction k)
  case 0
  show ?case by simp
next
  case (Suc k)
  then have "(tick a ^^ Suc k) s = tick a s" by simp
  with tick_halted_step [OF Suc.prems] show ?case by simp
qed

lemma ticks_elapsed:
  assumes "CEN (TIM s a)" "UIE (TIM s a)" "CNT (TIM s a) = 0"
  shows "elapsed ((tick a ^^ k) s) =
           (if k \<le> unat (ARR (TIM s a)) then elapsed s else elapsed s @ [a])"
proof (cases "k \<le> unat (ARR (TIM s a))")
  case True
  with tick_counts [OF assms(1,3) True] show ?thesis by simp
next
  case False
  then obtain j where k: "k = j + Suc (unat (ARR (TIM s a)))"
    by (metis add.commute le_Suc_ex not_less_eq_eq)
  let ?e = "(tick a ^^ Suc (unat (ARR (TIM s a)))) s"
  from tick_elapses [OF assms] have e: "?e =
      s\<lparr>TIM := (TIM s)(a := (TIM s a)\<lparr>CNT := ARR (TIM s a), CEN := False, UIF := False\<rparr>),
        elapsed := elapsed s @ [a]\<rparr>" .
  then have "\<not> CEN (TIM ?e a)" by simp
  from tick_halted [OF this, of j] have "(tick a ^^ j) ?e = ?e" .
  with k have "(tick a ^^ k) s = ?e" by (simp only: funpow_add comp_apply)
  with e False show ?thesis by simp
qed

section \<open>The timer claims\<close>

text \<open>
  C5 as stated fails: \<open>10*ms\<close> is computed in 32 bits. For \<open>ms = 429496730\<close> the
  product is \<open>4294967300\<close>, which wraps to a period of 4 ticks.
\<close>

theorem start_timer_period_counterexample:
  "uint (ARR (regs_of TIMER_1 (start_timer TIMER_1 429496730 hw_sample))) = 4 \<and>
   10 * sint (429496730 :: 32 word) = 4294967300"
  by (simp add: start_timer_regs)

text \<open>
  C5, amended. For every channel \<open>TIMER_1\<close>, \<open>TIMER_2\<close>, \<open>TIMER_3\<close> and
  every duration \<open>ms\<close> from 0 to 214748364, the largest whose tenfold fits a 32-bit
  \<open>int\<close>, \<open>start_timer\<close> programs the timer of the channel to elapse once after
  \<open>ms\<close> milliseconds: it sets the period to \<open>10*ms\<close> ticks and the count to zero,
  and leaves the countdown running with its elapse interrupt enabled. In the first
  \<open>10*ms\<close> ticks after the start the timer delivers no elapse; the tick after them
  delivers one, and no later tick delivers another. The pending elapsed-flag is cleared
  before the countdown starts: the start itself delivers no elapse, also from a state
  whose flag is pending, and leaves no flag pending.
\<close>

theorem start_timer_programs_period:
  assumes "timer \<noteq> NUM_TIMERS" "0 \<le> sint ms" "sint ms \<le> 214748364"
  shows "uint (ARR (regs_of timer (start_timer timer ms s))) = 10 * sint ms \<and>
         CNT (regs_of timer (start_timer timer ms s)) = 0 \<and>
         \<not> UIF (regs_of timer (start_timer timer ms s)) \<and>
         UIE (regs_of timer (start_timer timer ms s)) \<and>
         CEN (regs_of timer (start_timer timer ms s)) \<and>
         elapsed (start_timer timer ms s) = elapsed s \<and>
         elapsed ((tick (Instance (handle_of timer s)) ^^ k) (start_timer timer ms s)) =
           (if k \<le> nat (10 * sint ms) then elapsed s
            else elapsed s @ [Instance (handle_of timer s)])"
proof -
  let ?a = "Instance (handle_of timer s)"
  let ?S = "start_timer timer ms s"
  from assms(1) have r: "regs_of timer ?S =
      (regs_of timer s)\<lparr>ARR := 10 * ms, CNT := 0, UIF := False, UIE := True, CEN := True\<rparr>"
    by (rule start_timer_regs)
  from assms(1) have t: "TIM ?S ?a = regs_of timer ?S"
    by (simp add: start_timer_eq regs_of_def)
  have e: "elapsed ?S = elapsed s" by (rule start_timer_elapsed)
  from period_value [OF assms(2,3)] have p: "uint (10 * ms) = 10 * sint ms" .
  then have u: "unat (ARR (TIM ?S ?a)) = nat (10 * sint ms)"
    by (simp add: t r unat_eq_nat_uint)
  from t r have "CEN (TIM ?S ?a)" "UIE (TIM ?S ?a)" "CNT (TIM ?S ?a) = 0" by simp_all
  from ticks_elapsed [OF this, of k] u e
  have "elapsed ((tick ?a ^^ k) ?S) =
      (if k \<le> nat (10 * sint ms) then elapsed s else elapsed s @ [?a])" by simp
  with r p e show ?thesis by simp
qed

theorem start_timer_programs_period_witness:
  "TIMER_2 \<noteq> NUM_TIMERS \<and> 0 \<le> sint (7 :: 32 word) \<and> sint (7 :: 32 word) \<le> 214748364 \<and>
   UIF (regs_of TIMER_2 hw_pending) \<and>
   uint (ARR (regs_of TIMER_2 (start_timer TIMER_2 7 hw_pending))) = 70 \<and>
   CNT (regs_of TIMER_2 (start_timer TIMER_2 7 hw_pending)) = 0 \<and>
   \<not> UIF (regs_of TIMER_2 (start_timer TIMER_2 7 hw_pending)) \<and>
   CEN (regs_of TIMER_2 (start_timer TIMER_2 7 hw_pending)) \<and>
   elapsed (start_timer TIMER_2 7 hw_pending) = [] \<and>
   elapsed ((tick 0x40000000 ^^ 70) (start_timer TIMER_2 7 hw_pending)) = [] \<and>
   elapsed ((tick 0x40000000 ^^ 71) (start_timer TIMER_2 7 hw_pending)) = [0x40000000] \<and>
   elapsed ((tick 0x40000000 ^^ 1000) (start_timer TIMER_2 7 hw_pending)) = [0x40000000]"
  using start_timer_programs_period [of TIMER_2 7 hw_pending 70]
    start_timer_programs_period [of TIMER_2 7 hw_pending 71]
    start_timer_programs_period [of TIMER_2 7 hw_pending 1000]
  by (simp add: hw_pending_def hw_sample_def handle_of_def regs_of_def)

text \<open>
  C8. For every channel \<open>TIMER_1\<close>, \<open>TIMER_2\<close>, \<open>TIMER_3\<close>:
  \<open>stop_timer\<close> leaves the channel's countdown halted, its elapse interrupt disabled
  and its counter at zero; stopping twice gives the state that stopping once gives; and on
  a channel that is already stopped (halted, counter at zero) \<open>stop_timer\<close> changes
  nothing.
\<close>

theorem stop_timer_idempotent:
  assumes "timer \<noteq> NUM_TIMERS"
  shows "\<not> CEN (regs_of timer (stop_timer timer s)) \<and>
         \<not> UIE (regs_of timer (stop_timer timer s)) \<and>
         CNT (regs_of timer (stop_timer timer s)) = 0 \<and>
         stop_timer timer (stop_timer timer s) = stop_timer timer s \<and>
         (\<not> CEN (regs_of timer s) \<and> \<not> UIE (regs_of timer s) \<and> CNT (regs_of timer s) = 0
            \<longrightarrow> stop_timer timer s = s)"
  using stop_timer_regs [OF assms, of s] stop_timer_idem [of timer s]
    stop_timer_noop [OF assms, of s]
  by simp

theorem stop_timer_idempotent_witness:
  "TIMER_3 \<noteq> NUM_TIMERS \<and>
   \<not> CEN (regs_of TIMER_3 hw_sample) \<and> \<not> UIE (regs_of TIMER_3 hw_sample) \<and>
   CNT (regs_of TIMER_3 hw_sample) = 0 \<and>
   stop_timer TIMER_3 hw_sample = hw_sample \<and>
   \<not> CEN (regs_of TIMER_3 (stop_timer TIMER_3 (start_timer TIMER_3 20 hw_sample))) \<and>
   stop_timer TIMER_3 (stop_timer TIMER_3 (start_timer TIMER_3 20 hw_sample)) =
     stop_timer TIMER_3 (start_timer TIMER_3 20 hw_sample)"
  using stop_timer_idempotent [of TIMER_3 hw_sample]
    stop_timer_idempotent [of TIMER_3 "start_timer TIMER_3 20 hw_sample"]
  by (simp add: regs_of_def handle_of_def hw_sample_def)

section \<open>The state machine claim\<close>






end
